theory Spec2Isabelle
  imports Main "HOL-Library.Word"
begin

section \<open>Event ports (src/ports/event_ports.hpp)\<close>

text \<open>
  A handler is a \<^verbatim>\<open>std::function<void(event_t)>\<close>: it returns nothing and acts on the
  program state around it. The state a handler can touch is the type \<open>'s\<close>; the handler
  vectors of the ports live in a separate store, so a handler of this model never registers
  a handler itself while a fire is running.
\<close>

type_synonym ('e, 's) handler_t = "'e \<Rightarrow> 's \<Rightarrow> 's"

text \<open>
  \<^verbatim>\<open>event_in_port\<close> wraps one handler; calling the port calls the handler.
\<close>

record ('e, 's) event_in_port =
  event_handler :: "('e, 's) handler_t"

definition in_port_call :: "('e, 's) event_in_port \<Rightarrow> ('e, 's) handler_t" where
  "in_port_call p in_event s = event_handler p in_event s"

text \<open>
  The store of handler vectors. \<^verbatim>\<open>event_out_port\<close> holds a
  \<^verbatim>\<open>std::shared_ptr<std::vector<handler_t>>\<close>: the port value is the address, the
  vector lives in the store. \<open>next_free\<close> is the allocator's next address.
\<close>

record ('e, 's) port_store =
  vectors :: "nat \<Rightarrow> ('e, 's) handler_t list"
  next_free :: nat

record event_out_port =
  event_handlers :: nat

text \<open>
  The default member initialiser of \<^verbatim>\<open>event_handlers\<close>: a new, empty vector behind a
  new shared pointer. As written, the initialiser gives \<^verbatim>\<open>make_shared\<close> the type
  \<^verbatim>\<open>handler_vector\<close>, which is the pointer type and not the vector type, and a pointer
  to that does not convert to the member; it is read here as allocating the vector, which
  is what the comment above the member and the uses of the member say.
\<close>

definition new_event_out_port ::
  "('e, 's) port_store \<Rightarrow> event_out_port \<times> ('e, 's) port_store" where
  "new_event_out_port st =
     (\<lparr>event_handlers = next_free st\<rparr>,
      st\<lparr>vectors := (vectors st)(next_free st := []), next_free := Suc (next_free st)\<rparr>)"

text \<open>
  The implicit copy constructor copies the shared pointer, member by member; the vector is
  not copied.
\<close>

definition copy_port :: "event_out_port \<Rightarrow> event_out_port" where
  "copy_port p = \<lparr>event_handlers = event_handlers p\<rparr>"

text \<open>
  \<^verbatim>\<open>for (auto target : *event_handlers) target(event);\<close>
\<close>

fun fire_loop :: "('e, 's) handler_t list \<Rightarrow> 'e \<Rightarrow> 's \<Rightarrow> 's" where
  "fire_loop [] event s = s"
| "fire_loop (target # targets) event s = fire_loop targets event (target event s)"

definition fire :: "event_out_port \<Rightarrow> 'e \<Rightarrow> ('e, 's) port_store \<Rightarrow> 's \<Rightarrow> 's" where
  "fire p event st s = fire_loop (vectors st (event_handlers p)) event s"

text \<open>
  \<^verbatim>\<open>event_handlers->push_back(new_handler);\<close>
\<close>

definition port_connect ::
  "event_out_port \<Rightarrow> ('e, 's) handler_t \<Rightarrow> ('e, 's) port_store \<Rightarrow> ('e, 's) port_store" where
  "port_connect p new_handler st =
     st\<lparr>vectors := (vectors st)(event_handlers p := vectors st (event_handlers p) @ [new_handler])\<rparr>"

text \<open>Registering a list of handlers, one \<^verbatim>\<open>connect\<close> call after the other.\<close>

fun connect_all ::
  "event_out_port \<Rightarrow> ('e, 's) handler_t list \<Rightarrow> ('e, 's) port_store \<Rightarrow> ('e, 's) port_store" where
  "connect_all p [] st = st"
| "connect_all p (h # hs) st = connect_all p hs (port_connect p h st)"

text \<open>
  A handler that does nothing but write down that it was called: its number and the value
  it was given, appended to a log of calls.
\<close>

definition recorder :: "'i \<Rightarrow> ('e, ('i \<times> 'e) list) handler_t" where
  "recorder i event log = log @ [(i, event)]"

subsection \<open>Connection dispatch\<close>

text \<open>
  The operand on the right of a connection is either an event sink (the trait
  \<^verbatim>\<open>is_event_sink\<close> is true for \<^verbatim>\<open>event_in_port\<close> only) or a plain callable, a
  transform of the event. The model has one event type: a transform maps \<open>'e\<close> to \<open>'e\<close>.
\<close>

datatype ('e, 's) connectable =
    Sink "('e, 's) event_in_port"
  | Transform "'e \<Rightarrow> 'e"

fun is_event_sink :: "('e, 's) connectable \<Rightarrow> bool" where
  "is_event_sink (Sink p) = True"
| "is_event_sink (Transform f) = False"

text \<open>
  Modelled from the spec: the generic \<^verbatim>\<open>fc::connect\<close> of two operands of which the left
  is not a source (core/connection.hpp is not part of the sources). A connection chain
  passes the event through the transforms in the order they were connected; ending in a
  sink it is a handler, otherwise it is a transform again.
\<close>

definition connection_transform :: "('e \<Rightarrow> 'e) \<Rightarrow> ('e \<Rightarrow> 'e) \<Rightarrow> ('e \<Rightarrow> 'e)" where
  "connection_transform f g = (\<lambda>x. g (f x))"

definition connection_handler :: "('e \<Rightarrow> 'e) \<Rightarrow> ('e, 's) event_in_port \<Rightarrow> ('e, 's) handler_t" where
  "connection_handler f sink = (\<lambda>x. in_port_call sink (f x))"

text \<open>
  \<^verbatim>\<open>event_proxy\<close>: a source and the chain connected to it so far. Every proxy that
  \<^verbatim>\<open>connect\<close> builds has an \<^verbatim>\<open>event_out_port\<close> as its source and a chain that is
  not a sink.
\<close>

record 'e event_proxy =
  source :: event_out_port
  stored_sink :: "'e \<Rightarrow> 'e"

text \<open>What a connection returns: nothing, or a proxy.\<close>

datatype 'e connect_result =
    Void
  | Proxy "'e event_proxy"

text \<open>
  The two \<^verbatim>\<open>connect\<close> members of \<^verbatim>\<open>event_proxy\<close>, selected by
  \<^verbatim>\<open>is_event_sink<new_sink_t>\<close>.
\<close>

fun proxy_connect ::
  "'e event_proxy \<Rightarrow> ('e, 's) connectable \<Rightarrow> ('e, 's) port_store \<Rightarrow>
     'e connect_result \<times> ('e, 's) port_store" where
  "proxy_connect pr (Transform g) st =
     (let connection = connection_transform (stored_sink pr) g
      in (Proxy \<lparr>source = source pr, stored_sink = connection\<rparr>, st))"
| "proxy_connect pr (Sink sink) st =
     (let tmp = connection_handler (stored_sink pr) sink
      in (Void, port_connect (source pr) tmp st))"

text \<open>
  The left operand of \<^verbatim>\<open>connect\<close>: an event source or a proxy.
\<close>

datatype 'e active_connectable =
    Source event_out_port
  | Chain "'e event_proxy"

text \<open>
  \<^verbatim>\<open>detail::connect_impl\<close>, its three specialisations. The operands are taken by value:
  the source that registers the handler is a copy of the caller's port.
\<close>

fun connect ::
  "'e active_connectable \<Rightarrow> ('e, 's) connectable \<Rightarrow> ('e, 's) port_store \<Rightarrow>
     'e connect_result \<times> ('e, 's) port_store" where
  "connect (Source a) (Transform f) st =
     (Proxy \<lparr>source = copy_port a, stored_sink = f\<rparr>, st)"
| "connect (Source a) (Sink sink) st =
     (Void, port_connect (copy_port a) (in_port_call sink) st)"
| "connect (Chain pr) b st = proxy_connect pr b st"

section \<open>List nodes (src/nodes/list_manipulation.hpp)\<close>

subsection \<open>The map of the splitter\<close>

text \<open>
  \<^verbatim>\<open>std::map<predicate_result_t, entry_t>\<close>: an association list with unique keys, kept
  in ascending key order, which is the order a range-for over the map visits it.
  \<^verbatim>\<open>find\<close> is a lookup; \<^verbatim>\<open>insert\<close> adds a pair at its place in the order and
  leaves the map alone when the key is there already.
\<close>

fun map_find :: "'k \<Rightarrow> ('k \<times> 'v) list \<Rightarrow> 'v option" where
  "map_find k [] = None"
| "map_find k ((k', v) # m) = (if k = k' then Some v else map_find k m)"

fun map_insert :: "'k::linorder \<Rightarrow> 'v \<Rightarrow> ('k \<times> 'v) list \<Rightarrow> ('k \<times> 'v) list" where
  "map_insert k v [] = [(k, v)]"
| "map_insert k v ((k', v') # m) =
     (if k < k' then (k, v) # (k', v') # m
      else if k = k' then (k', v') # m
      else (k', v') # map_insert k v m)"

text \<open>Writing through the iterator that \<^verbatim>\<open>find\<close> returned.\<close>

fun map_assign :: "'k \<Rightarrow> 'v \<Rightarrow> ('k \<times> 'v) list \<Rightarrow> ('k \<times> 'v) list" where
  "map_assign k v [] = []"
| "map_assign k v ((k', v') # m) =
     (if k = k' then (k', v) # m else (k', v') # map_assign k v m)"

subsection \<open>list\_splitter\<close>

text \<open>
  \<^verbatim>\<open>entry_t\<close>: an output port and the buffer of the elements sorted to it. The port
  type \<^verbatim>\<open>event_source\<close> (ports/fancy\_ports.hpp, not part of the sources) is taken to
  be \<^verbatim>\<open>event_out_port\<close>; its events are ranges, modelled as lists.
\<close>

record 'a entry_t =
  port :: event_out_port
  data :: "'a list"

text \<open>
  The drop counter is a \<^verbatim>\<open>size_t\<close> behind \<^verbatim>\<open>state_source_with_setter\<close>
  (not part of the sources): a 64-bit word, \<^verbatim>\<open>++\<close> wraps.
\<close>

record ('a, 'k) list_splitter =
  entries :: "('k \<times> 'a entry_t) list"
  out_num_dropped :: "64 word"
  predicate :: "'a \<Rightarrow> 'k"

text \<open>
  The constructor. The value the counter starts with is decided by the constructor of
  \<^verbatim>\<open>state_source_with_setter\<close>, so it is a parameter here.
\<close>

definition new_list_splitter :: "('a \<Rightarrow> 'k) \<Rightarrow> 64 word \<Rightarrow> ('a, 'k) list_splitter" where
  "new_list_splitter pred dropped = \<lparr>entries = [], out_num_dropped = dropped, predicate = pred\<rparr>"

text \<open>
  \<^verbatim>\<open>out(value)\<close>: the port of the entry for the key, created on the first request.
  The port is returned by value, a copy.
\<close>

definition out ::
  "('a, 'k::linorder) list_splitter \<Rightarrow> 'k \<Rightarrow> ('a list, 's) port_store \<Rightarrow>
     event_out_port \<times> ('a, 'k) list_splitter \<times> ('a list, 's) port_store" where
  "out sp v st =
     (case map_find v (entries sp) of
        Some e \<Rightarrow> (copy_port (port e), sp, st)
      | None \<Rightarrow>
          (let (p, st') = new_event_out_port st;
               e = \<lparr>port = p, data = []\<rparr>
           in (copy_port p, sp\<lparr>entries := map_insert v e (entries sp)\<rparr>, st')))"

text \<open>The first loop of \<^verbatim>\<open>receive\<close>: sort elements by predicate.\<close>

fun sort_elements ::
  "('a \<Rightarrow> 'k) \<Rightarrow> 'a list \<Rightarrow> ('k \<times> 'a entry_t) list \<Rightarrow> 64 word \<Rightarrow>
     ('k \<times> 'a entry_t) list \<times> 64 word" where
  "sort_elements pred [] es dropped = (es, dropped)"
| "sort_elements pred (x # xs) es dropped =
     (let p = pred x in
      case map_find p es of
        Some e \<Rightarrow> sort_elements pred xs (map_assign p (e\<lparr>data := data e @ [x]\<rparr>) es) dropped
      | None \<Rightarrow> sort_elements pred xs es (dropped + 1))"

text \<open>The second loop: send sorted elements, entry by entry, and clear each buffer.\<close>

fun send_elements ::
  "('k \<times> 'a entry_t) list \<Rightarrow> ('a list, 's) port_store \<Rightarrow> 's \<Rightarrow> ('k \<times> 'a entry_t) list \<times> 's" where
  "send_elements [] st s = ([], s)"
| "send_elements ((k, e) # es) st s =
     (let s' = fire (port e) (data e) st s;
          (es', s'') = send_elements es st s'
      in ((k, e\<lparr>data := []\<rparr>) # es', s''))"

definition splitter_receive ::
  "('a, 'k) list_splitter \<Rightarrow> 'a list \<Rightarrow> ('a list, 's) port_store \<Rightarrow> 's \<Rightarrow>
     ('a, 'k) list_splitter \<times> 's" where
  "splitter_receive sp rng st s =
     (let (es, dropped) = sort_elements (predicate sp) rng (entries sp) (out_num_dropped sp);
          (es', s') = send_elements es st s
      in (sp\<lparr>entries := es', out_num_dropped := dropped\<rparr>, s'))"

text \<open>Requesting the outputs for a list of keys, one \<^verbatim>\<open>out\<close> call after the other.\<close>

fun request_outputs ::
  "'k::linorder list \<Rightarrow> ('a, 'k) list_splitter \<Rightarrow> ('a list, 's) port_store \<Rightarrow>
     ('a, 'k) list_splitter \<times> ('a list, 's) port_store" where
  "request_outputs [] sp st = (sp, st)"
| "request_outputs (k # ks) sp st =
     (let (p, sp', st') = out sp k st in request_outputs ks sp' st')"

text \<open>The port a splitter holds for a key.\<close>

definition port_of :: "('a, 'k) list_splitter \<Rightarrow> 'k \<Rightarrow> event_out_port" where
  "port_of sp k = (case map_find k (entries sp) of Some e \<Rightarrow> port e | None \<Rightarrow> \<lparr>event_handlers = 0\<rparr>)"

subsection \<open>list\_collector\<close>

record 'a list_collector =
  buffer_collect :: "'a list"
  buffer_state :: "'a list"

definition new_list_collector :: "'a list_collector" where
  "new_list_collector = \<lparr>buffer_collect = [], buffer_state = []\<rparr>"

text \<open>
  \<^verbatim>\<open>buffer_collect.insert(buffer_collect.end(), std::begin(range), std::end(range));\<close>
\<close>

definition collector_receive :: "'a list \<Rightarrow> 'a list_collector \<Rightarrow> 'a list_collector" where
  "collector_receive rng c = c\<lparr>buffer_collect := buffer_collect c @ rng\<rparr>"

text \<open>
  \<^verbatim>\<open>get_state\<close>: clear \<^verbatim>\<open>buffer_state\<close>, swap the two buffers, return the range over
  \<^verbatim>\<open>buffer_state\<close>.
\<close>

definition get_state :: "'a list_collector \<Rightarrow> 'a list \<times> 'a list_collector" where
  "get_state c =
     (let c1 = c\<lparr>buffer_state := []\<rparr>;
          c2 = c1\<lparr>buffer_state := buffer_collect c1, buffer_collect := buffer_state c1\<rparr>
      in (buffer_state c2, c2))"

text \<open>A run of the collector: ranges arriving at the sink and pulls of the state.\<close>

datatype 'a collector_op = Receive "'a list" | Pull

text \<open>The ranges the pulls of a run return, in order, and the collector after it.\<close>

fun collector_run :: "'a collector_op list \<Rightarrow> 'a list_collector \<Rightarrow> 'a list list \<times> 'a list_collector" where
  "collector_run [] c = ([], c)"
| "collector_run (Receive r # ops) c = collector_run ops (collector_receive r c)"
| "collector_run (Pull # ops) c =
     (let (r, c') = get_state c; (rs, c'') = collector_run ops c' in (r # rs, c''))"

fun received :: "'a collector_op list \<Rightarrow> 'a list list" where
  "received [] = []"
| "received (Receive r # ops) = r # received ops"
| "received (Pull # ops) = received ops"

section \<open>State nodes (src/nodes/state\_nodes.hpp)\<close>

text \<open>
  Modelled from the spec: \<^verbatim>\<open>state_sink\<close> (ports/states/state\_sink.hpp is not part of
  the sources). A state sink holds a pull function yielding the upstream current value on
  demand; the pull runs user code, so it may read and change the program state \<open>'s\<close>.
\<close>

record ('a, 's) state_sink =
  get :: "'s \<Rightarrow> 'a \<times> 's"

text \<open>
  \<^verbatim>\<open>merge_node<operation, result (args...)>\<close> at two arguments: the tuple of sinks
  and the operation.
\<close>

record ('a, 'b, 'r, 's) merge_node =
  in0 :: "('a, 's) state_sink"
  in1 :: "('b, 's) state_sink"
  op :: "'a \<Rightarrow> 'b \<Rightarrow> 'r"

text \<open>
  \<^verbatim>\<open>op(std::get<index>(tup).get()...)\<close> expands to a call of \<^verbatim>\<open>op\<close> with the two
  \<^verbatim>\<open>get()\<close> calls as its arguments. The language does not fix the order in which the
  arguments of a call are evaluated; the two calls do not overlap, so the compiler picks one
  of two orders.
\<close>

datatype evaluation_order = Left_to_right | Right_to_left

fun invoke_helper ::
  "evaluation_order \<Rightarrow> ('a, 'b, 'r, 's) merge_node \<Rightarrow> 's \<Rightarrow> 'r \<times> 's" where
  "invoke_helper Left_to_right n s =
     (let (a, s1) = get (in0 n) s; (b, s2) = get (in1 n) s1 in (op n a b, s2))"
| "invoke_helper Right_to_left n s =
     (let (b, s1) = get (in1 n) s; (a, s2) = get (in0 n) s1 in (op n a b, s2))"

text \<open>\<^verbatim>\<open>operator()\<close>\<close>

definition merge_node_call ::
  "evaluation_order \<Rightarrow> ('a, 'b, 'r, 's) merge_node \<Rightarrow> 's \<Rightarrow> 'r \<times> 's" where
  "merge_node_call ord n s = invoke_helper ord n s"

text \<open>A source that reads its value from the program state and changes nothing.\<close>

definition reading :: "('s \<Rightarrow> 'a) \<Rightarrow> ('a, 's) state_sink" where
  "reading g = \<lparr>get = (\<lambda>s. (g s, s))\<rparr>"

text \<open>
  A source that produces \<open>v\<close> and writes down that it was pulled: the state is the log of
  the sinks pulled so far.
\<close>

definition probe :: "nat \<Rightarrow> 'a \<Rightarrow> ('a, nat list) state_sink" where
  "probe i v = \<lparr>get = (\<lambda>log. (v, log @ [i]))\<rparr>"

section \<open>The ownership tree (flexcore/extended/base\_node.hpp)\<close>

subsection \<open>The ordered-tree container\<close>

text \<open>
  Modelled from the spec: the ordered-tree container behind \<^verbatim>\<open>forest_t\<close>
  (adobe/forest.hpp, an external library, is not part of the sources). The spec asks of it:
  insertion of a value at a position, returning an iterator to the inserted value; the
  leading and trailing bounds of a subtree; half-open-range erase; standard iteration.

  A forest is a list of trees: \<open>Tree n v cs sibs\<close> is the node \<open>n\<close> holding the value
  \<open>v\<close>, with the forest \<open>cs\<close> of its children and the forest \<open>sibs\<close> of the siblings that
  follow it. The number \<open>n\<close> stands for the address of the node. An iterator is a node
  and an edge; iteration is depth first and visits every node twice, on its leading edge
  before its children and on its trailing edge after them. \<open>End\<close> is the iterator past
  the last entry.
\<close>

datatype edge = Trailing | Leading

datatype iterator = At nat edge | End

datatype 'a forest = Empty | Tree nat 'a "'a forest" "'a forest"

fun fullorder :: "'a forest \<Rightarrow> iterator list" where
  "fullorder Empty = []"
| "fullorder (Tree n v cs sibs) = At n Leading # fullorder cs @ At n Trailing # fullorder sibs"

fun node_ids :: "'a forest \<Rightarrow> nat list" where
  "node_ids Empty = []"
| "node_ids (Tree n v cs sibs) = n # node_ids cs @ node_ids sibs"

fun forest_size :: "'a forest \<Rightarrow> nat" where
  "forest_size Empty = 0"
| "forest_size (Tree n v cs sibs) = Suc (forest_size cs + forest_size sibs)"

fun leading_of :: "iterator \<Rightarrow> iterator" where
  "leading_of (At n e) = At n Leading"
| "leading_of End = End"

fun trailing_of :: "iterator \<Rightarrow> iterator" where
  "trailing_of (At n e) = At n Trailing"
| "trailing_of End = End"

text \<open>\<^verbatim>\<open>++it\<close>: the entry after \<open>it\<close> in the traversal, \<open>End\<close> after the last one.\<close>

fun successor :: "iterator list \<Rightarrow> iterator \<Rightarrow> iterator" where
  "successor [] it = End"
| "successor [x] it = End"
| "successor (x # y # xs) it = (if x = it then y else successor (y # xs) it)"

text \<open>The value a node holds, the forest of its children, the nodes on the top level.\<close>

fun value_at :: "nat \<Rightarrow> 'a forest \<Rightarrow> 'a option" where
  "value_at n Empty = None"
| "value_at n (Tree m v cs sibs) =
     (if m = n then Some v
      else case value_at n cs of Some w \<Rightarrow> Some w | None \<Rightarrow> value_at n sibs)"

fun children_of :: "nat \<Rightarrow> 'a forest \<Rightarrow> 'a forest option" where
  "children_of n Empty = None"
| "children_of n (Tree m v cs sibs) =
     (if m = n then Some cs
      else case children_of n cs of Some c \<Rightarrow> Some c | None \<Rightarrow> children_of n sibs)"

fun top_ids :: "'a forest \<Rightarrow> nat list" where
  "top_ids Empty = []"
| "top_ids (Tree n v cs sibs) = n # top_ids sibs"

definition child_ids :: "nat \<Rightarrow> 'a forest \<Rightarrow> nat list" where
  "child_ids n f = (case children_of n f of Some cs \<Rightarrow> top_ids cs | None \<Rightarrow> [])"

text \<open>The descendants of a node: every node below it.\<close>

definition descendants :: "nat \<Rightarrow> 'a forest \<Rightarrow> nat list" where
  "descendants n f = (case children_of n f of Some cs \<Rightarrow> node_ids cs | None \<Rightarrow> [])"

text \<open>The address of a new node: one that no node of the forest has.\<close>

fun max_id :: "'a forest \<Rightarrow> nat" where
  "max_id Empty = 0"
| "max_id (Tree n v cs sibs) = max n (max (max_id cs) (max_id sibs))"

definition fresh_node :: "'a forest \<Rightarrow> nat" where
  "fresh_node f = Suc (max_id f)"

text \<open>
  \<^verbatim>\<open>insert(position, value)\<close> puts a new node right before \<open>position\<close> in the
  traversal and returns the iterator to it: before the leading edge of a node it is the
  sibling in front of that node, before the trailing edge of a node it is the last child of
  that node, before \<open>End\<close> it is the last tree of the forest. \<open>closing\<close> is the entry that
  follows the forest at hand.
\<close>

fun insert_before :: "iterator \<Rightarrow> iterator \<Rightarrow> nat \<Rightarrow> 'a \<Rightarrow> 'a forest \<Rightarrow> 'a forest" where
  "insert_before position closing n v Empty =
     (if position = closing then Tree n v Empty Empty else Empty)"
| "insert_before position closing n v (Tree m w cs sibs) =
     (if position = At m Leading then Tree n v Empty (Tree m w cs sibs)
      else Tree m w (insert_before position (At m Trailing) n v cs)
                    (insert_before position closing n v sibs))"

definition forest_insert :: "'a forest \<Rightarrow> iterator \<Rightarrow> 'a \<Rightarrow> 'a forest \<times> iterator" where
  "forest_insert f position v =
     (let n = fresh_node f in (insert_before position End n v f, At n Leading))"

text \<open>
  \<^verbatim>\<open>erase(first, last)\<close> removes the nodes whose leading and trailing entries both lie
  in the range from \<open>first\<close> up to, not including, \<open>last\<close>, and returns \<open>last\<close>.
  The children of a removed node that are not removed themselves take its place.
\<close>

fun append_forest :: "'a forest \<Rightarrow> 'a forest \<Rightarrow> 'a forest" where
  "append_forest Empty g = g"
| "append_forest (Tree n v cs sibs) g = Tree n v cs (append_forest sibs g)"

fun prune :: "(nat \<Rightarrow> bool) \<Rightarrow> 'a forest \<Rightarrow> 'a forest" where
  "prune dead Empty = Empty"
| "prune dead (Tree n v cs sibs) =
     (if dead n then append_forest (prune dead cs) (prune dead sibs)
      else Tree n v (prune dead cs) (prune dead sibs))"

definition iterator_range :: "iterator list \<Rightarrow> iterator \<Rightarrow> iterator \<Rightarrow> iterator list" where
  "iterator_range order first lst =
     takeWhile (\<lambda>it. it \<noteq> lst) (dropWhile (\<lambda>it. it \<noteq> first) order)"

definition forest_erase :: "'a forest \<Rightarrow> iterator \<Rightarrow> iterator \<Rightarrow> 'a forest \<times> iterator" where
  "forest_erase f first lst =
     (let r = iterator_range (fullorder f) first lst
      in (prune (\<lambda>n. At n Leading \<in> set r \<and> At n Trailing \<in> set r) f, lst))"

subsection \<open>erase\_with\_subtree\<close>

text \<open>
  \<^verbatim>\<open>forest.erase(adobe::leading_of(position), ++adobe::trailing_of(position))\<close>.
  The source requires that \<open>position\<close> is in the forest and has no defined behaviour
  otherwise: that case is \<open>None\<close>.
\<close>

definition erase_with_subtree :: "'a forest \<Rightarrow> iterator \<Rightarrow> ('a forest \<times> iterator) option" where
  "erase_with_subtree f position =
     (if position \<in> set (fullorder f)
      then Some (forest_erase f (leading_of position)
                   (successor (fullorder f) (trailing_of position)))
      else None)"

text \<open>
  What the erase is meant to do, written on the tree: the node \<open>n\<close> goes with everything
  below it, its following siblings move up.
\<close>

fun remove_subtree :: "nat \<Rightarrow> 'a forest \<Rightarrow> 'a forest" where
  "remove_subtree n Empty = Empty"
| "remove_subtree n (Tree m v cs sibs) =
     (if m = n then sibs else Tree m v (remove_subtree n cs) (remove_subtree n sibs))"

subsection \<open>Tree nodes\<close>

text \<open>
  The members \<^verbatim>\<open>region_\<close>, \<^verbatim>\<open>graph_info_\<close> and \<^verbatim>\<open>self_\<close> are the fields
  \<open>region_field\<close>, \<open>graph_info_field\<close> and \<open>self_field\<close>.
  A region is a \<^verbatim>\<open>std::shared_ptr<parallel_region>\<close>: the address of the region.
  \<^verbatim>\<open>tree_base_node\<close> keeps its region and its graph information, which is its name.
  \<^verbatim>\<open>owning_base_node\<close> adds \<^verbatim>\<open>self_\<close>, its own position in the forest; it is the
  trailing edge of its node (\<^verbatim>\<open>make_owner\<close> passes \<^verbatim>\<open>adobe::trailing_of\<close> of the
  inserted holder). \<^verbatim>\<open>forest_graph\<close> is reached through \<^verbatim>\<open>fg_\<close>; its connection graph
  is left out.
\<close>

type_synonym region = nat

record tree_base_node =
  region_field :: region
  graph_info_field :: string

record owning_base_node = tree_base_node +
  self_field :: iterator

record forest_graph =
  forest :: "tree_base_node forest"

text \<open>\<^verbatim>\<open>region()\<close> of a tree node.\<close>

definition region :: "'x tree_base_node_scheme \<Rightarrow> region" where
  "region n = region_field n"

text \<open>
  Modelled from the spec: \<^verbatim>\<open>owning_base_node::add_child\<close> (declared in the header,
  defined in a file that is not part of the sources). It takes ownership of the child,
  inserts it as the last child of the parent in the tree and returns a pointer to it; the
  pointer is the address of the node.
\<close>

definition add_child ::
  "owning_base_node \<Rightarrow> tree_base_node \<Rightarrow> forest_graph \<Rightarrow> nat \<times> forest_graph" where
  "add_child parent child fg =
     (let (f, it) = forest_insert (forest fg) (self_field parent) child
      in (case it of At n e \<Rightarrow> n | End \<Rightarrow> 0, fg\<lparr>forest := f\<rparr>))"

text \<open>
  \<^verbatim>\<open>make_child<node_t>(args...)\<close>: the child is built from
  \<^verbatim>\<open>tree_base_node{fg_, region(), node_t::default_name}\<close> and handed to
  \<^verbatim>\<open>add_child\<close>. The overload with a region takes \<open>r\<close> in place of \<^verbatim>\<open>region()\<close>.
\<close>

definition make_child ::
  "owning_base_node \<Rightarrow> string \<Rightarrow> forest_graph \<Rightarrow> nat \<times> forest_graph" where
  "make_child parent default_name fg =
     add_child parent \<lparr>region_field = region parent, graph_info_field = default_name\<rparr> fg"

definition make_child_in ::
  "owning_base_node \<Rightarrow> region \<Rightarrow> string \<Rightarrow> forest_graph \<Rightarrow> nat \<times> forest_graph" where
  "make_child_in parent r default_name fg =
     add_child parent \<lparr>region_field = r, graph_info_field = default_name\<rparr> fg"

text \<open>Calling \<^verbatim>\<open>make_child\<close> once for each name of a list; the pointers, in order.\<close>

fun make_children ::
  "owning_base_node \<Rightarrow> string list \<Rightarrow> forest_graph \<Rightarrow> nat list \<times> forest_graph" where
  "make_children parent [] fg = ([], fg)"
| "make_children parent (nm # nms) fg =
     (let (c, fg') = make_child parent nm fg;
          (cs, fg'') = make_children parent nms fg'
      in (c # cs, fg''))"

section \<open>Event ports: properties\<close>

lemma copy_port_id: "copy_port p = p"
  by (simp add: copy_port_def)

lemma fire_loop_append:
  "fire_loop (hs @ hs') e s = fire_loop hs' e (fire_loop hs e s)"
  by (induction hs arbitrary: s) simp_all

lemma fire_loop_fold: "fire_loop hs e s = fold (\<lambda>h. h e) hs s"
  by (induction hs arbitrary: s) simp_all

lemma vectors_connect_all:
  "vectors (connect_all p hs st) a =
     (if a = event_handlers p then vectors st a @ hs else vectors st a)"
  by (induction hs arbitrary: st) (simp_all add: port_connect_def)

lemma in_port_call_eq: "in_port_call b = event_handler b"
  by (rule ext)+ (simp add: in_port_call_def)

text \<open>
  Claim C1. For a port on which exactly the handlers \<open>hs\<close> were registered, in this order,
  and nothing before them, one \<^verbatim>\<open>fire\<close> with the event \<open>e\<close> has the effect of calling
  the first handler with \<open>e\<close>, then the second with \<open>e\<close>, and so on to the last: each
  handler once, in registration order, every one with the same value, all before
  \<^verbatim>\<open>fire\<close> returns.
\<close>

theorem fire_invokes_each_handler_once_in_order:
  assumes "vectors st (event_handlers p) = []"
  shows "fire p e (connect_all p hs st) s = fold (\<lambda>h. h e) hs s"
  using assms by (simp add: fire_def vectors_connect_all fire_loop_fold)

text \<open>
  A new port, three handlers that log their calls registered on it, fired with 7: the log
  shows the three calls in registration order, each with 7.
\<close>

theorem fire_invokes_each_handler_once_in_order_witness:
  "vectors (snd (new_event_out_port \<lparr>vectors = (\<lambda>a. []), next_free = 0\<rparr>))
     (event_handlers (fst (new_event_out_port
        (\<lparr>vectors = (\<lambda>a. []), next_free = 0\<rparr> :: (int, (nat \<times> int) list) port_store)))) = []
   \<and> fire (fst (new_event_out_port
               (\<lparr>vectors = (\<lambda>a. []), next_free = 0\<rparr> :: (int, (nat \<times> int) list) port_store)))
        7
        (connect_all (fst (new_event_out_port
               (\<lparr>vectors = (\<lambda>a. []), next_free = 0\<rparr> :: (int, (nat \<times> int) list) port_store)))
           [recorder 0, recorder 1, recorder 2]
           (snd (new_event_out_port \<lparr>vectors = (\<lambda>a. []), next_free = 0\<rparr>))) []
      = [(0, 7), (1, 7), (2, 7)]"
  using fire_invokes_each_handler_once_in_order
    [of "snd (new_event_out_port \<lparr>vectors = (\<lambda>a. []), next_free = 0\<rparr>)"
        "fst (new_event_out_port
               (\<lparr>vectors = (\<lambda>a. []), next_free = 0\<rparr> :: (int, (nat \<times> int) list) port_store))"
        7 "[recorder 0, recorder 1, recorder 2]" "[]"]
  by (simp add: recorder_def new_event_out_port_def)

text \<open>
  Claim C2. Connecting a source to an event sink appends the handler of the sink to the
  handler vector of the source and returns nothing. Connecting a source to an operand that
  is not a sink returns a proxy of the source and the operand and leaves the store alone.
  Connecting a proxy to an operand that is not a sink returns a proxy of the same source
  with the chain extended by the operand, and leaves the store alone. Connecting a proxy to
  a sink appends one handler to the vector of the original source, the chain followed by
  the handler of the sink, and returns nothing. So a source connected through \<open>f\<close>, then
  \<open>g\<close>, then to a sink \<open>b\<close> ends with the handler \<open>b \<circ> g \<circ> f\<close> registered on the
  source. For every left operand, the connection returns nothing exactly when the right
  operand is an event sink, and otherwise leaves the store as it was.
\<close>

theorem connect_dispatch:
  "connect (Source a) (Sink b) st =
     (Void, st\<lparr>vectors := (vectors st)(event_handlers a := vectors st (event_handlers a) @ [event_handler b])\<rparr>)
   \<and> connect (Source a) (Transform f) st = (Proxy \<lparr>source = a, stored_sink = f\<rparr>, st)
   \<and> connect (Chain pr) (Transform g) st =
       (Proxy \<lparr>source = source pr, stored_sink = (\<lambda>x. g (stored_sink pr x))\<rparr>, st)
   \<and> connect (Chain pr) (Sink b) st =
       (Void, st\<lparr>vectors := (vectors st)(event_handlers (source pr) :=
          vectors st (event_handlers (source pr)) @ [\<lambda>x. event_handler b (stored_sink pr x)])\<rparr>)
   \<and> (case connect (Source a) (Transform f) st of
         (Proxy p1, st1) \<Rightarrow>
           (case connect (Chain p1) (Transform g) st1 of
              (Proxy p2, st2) \<Rightarrow>
                connect (Chain p2) (Sink b) st2 =
                  (Void, port_connect a (\<lambda>x. event_handler b (g (f x))) st)
            | (Void, st2) \<Rightarrow> False)
       | (Void, st1) \<Rightarrow> False)
   \<and> (fst (connect x c st) = Void) = is_event_sink c
   \<and> (if is_event_sink c then True else snd (connect x c st) = st)"
  by (cases x; cases c)
     (simp_all add: copy_port_id port_connect_def in_port_call_eq connection_transform_def
        connection_handler_def)

text \<open>
  Claim C3. A copy of an event source shares the handler vector of the original: a handler
  registered through a copy is called when the original fires, one registered through the
  original is called when a copy fires, and one registered through a copy is called when
  a copy fires; in each case after the handlers that were there before. So the sink that
  \<^verbatim>\<open>connect\<close> registers through its by-value copy of the source is called when the
  caller's port fires.
\<close>

theorem handler_list_shared_between_copies:
  "fire p e (port_connect (copy_port p) h st) s = h e (fire p e st s)
   \<and> fire (copy_port p) e (port_connect p h st) s = h e (fire p e st s)
   \<and> fire (copy_port p) e (port_connect (copy_port p) h st) s = h e (fire p e st s)
   \<and> fire p e (snd (connect (Source p) (Sink b) st)) s = event_handler b e (fire p e st s)"
  by (simp add: copy_port_id fire_def port_connect_def fire_loop_append in_port_call_eq)

section \<open>list\_splitter: properties\<close>

lemma map_find_map_of: "map_find k m = map_of m k"
  by (induction m) auto

lemma map_find_None_iff: "map_find k m = None \<longleftrightarrow> k \<notin> fst ` set m"
  by (simp add: map_find_map_of map_of_eq_None_iff)

lemma map_assign_as_map:
  "distinct (map fst m) \<Longrightarrow> map_find k m = Some v0 \<Longrightarrow>
     map_assign k v m = map (\<lambda>(k', v'). (k', if k' = k then v else v')) m"
proof (induction m)
  case Nil
  then show ?case by simp
next
  case (Cons a m)
  obtain k' v' where a: "a = (k', v')" by (cases a)
  show ?case
  proof (cases "k = k'")
    case True
    have "k' \<notin> fst ` set m" using Cons.prems(1) a by auto
    then have "map (\<lambda>(k'', v''). (k'', if k'' = k' then v else v'')) m = m"
      by (intro map_idI) force
    then show ?thesis using True a by simp
  next
    case False
    then show ?thesis using Cons a by simp
  qed
qed

lemma sort_elements_eq:
  "distinct (map fst es) \<Longrightarrow>
   sort_elements pred xs es d =
     (map (\<lambda>(k, e). (k, e\<lparr>data := data e @ filter (\<lambda>x. pred x = k) xs\<rparr>)) es,
      d + of_nat (length (filter (\<lambda>x. pred x \<notin> fst ` set es) xs)))"
proof (induction xs arbitrary: es d)
  case Nil
  show ?case by (simp add: case_prod_unfold)
next
  case (Cons x xs)
  show ?case
  proof (cases "map_find (pred x) es")
    case None
    then have "pred x \<notin> fst ` set es" by (simp add: map_find_None_iff)
    then have "\<And>k e. (k, e) \<in> set es \<Longrightarrow> pred x \<noteq> k" by force
    then have "map (\<lambda>(k, e). (k, e\<lparr>data := data e @ filter (\<lambda>x. pred x = k) (x # xs)\<rparr>)) es =
               map (\<lambda>(k, e). (k, e\<lparr>data := data e @ filter (\<lambda>x. pred x = k) xs\<rparr>)) es"
      by (intro map_cong) auto
    then show ?thesis
      using None Cons.IH [OF Cons.prems, of "d + 1"] \<open>pred x \<notin> fst ` set es\<close>
      by (simp add: add.assoc add.commute)
  next
    case (Some e0)
    let ?es' = "map_assign (pred x) (e0\<lparr>data := data e0 @ [x]\<rparr>) es"
    have es': "?es' = map (\<lambda>(k', v'). (k', if k' = pred x then e0\<lparr>data := data e0 @ [x]\<rparr> else v')) es"
      using map_assign_as_map [OF Cons.prems Some] .
    have keys: "map fst ?es' = map fst es"
      by (simp add: es' case_prod_unfold)
    have in_keys: "pred x \<in> fst ` set es"
      using Some map_find_None_iff [of "pred x" es] by auto
    have e0: "\<And>k e. (k, e) \<in> set es \<Longrightarrow> k = pred x \<Longrightarrow> e = e0"
      using Some Cons.prems by (simp add: map_find_map_of)
    have "sort_elements pred (x # xs) es d = sort_elements pred xs ?es' d"
      using Some by simp
    also have "\<dots> = (map (\<lambda>(k, e). (k, e\<lparr>data := data e @ filter (\<lambda>x. pred x = k) xs\<rparr>)) ?es',
        d + of_nat (length (filter (\<lambda>x. pred x \<notin> fst ` set ?es') xs)))"
      using Cons.IH [of ?es' d] Cons.prems keys by simp
    also have "map (\<lambda>(k, e). (k, e\<lparr>data := data e @ filter (\<lambda>x. pred x = k) xs\<rparr>)) ?es' =
        map (\<lambda>(k, e). (k, e\<lparr>data := data e @ filter (\<lambda>x. pred x = k) (x # xs)\<rparr>)) es"
      unfolding es' map_map by (intro map_cong) (auto dest: e0)
    also have "fst ` set ?es' = fst ` set es"
      using keys by (metis list.set_map)
    finally show ?thesis using in_keys by simp
  qed
qed

lemma send_elements_eq:
  "send_elements es st s =
     (map (\<lambda>(k, e). (k, e\<lparr>data := []\<rparr>)) es,
      fold (\<lambda>(k, e). fire (port e) (data e) st) es s)"
  by (induction es st s rule: send_elements.induct) (simp_all add: Let_def)

lemma splitter_receive_eq:
  assumes "distinct (map fst (entries sp))"
    and "\<forall>ke \<in> set (entries sp). data (snd ke) = []"
  shows "splitter_receive sp xs st s =
     (sp\<lparr>out_num_dropped := out_num_dropped sp +
          of_nat (length (filter (\<lambda>x. predicate sp x \<notin> fst ` set (entries sp)) xs))\<rparr>,
      fold (\<lambda>(k, e). fire (port e) (filter (\<lambda>x. predicate sp x = k) xs) st) (entries sp) s)"
proof -
  let ?es = "map (\<lambda>(k, e). (k, e\<lparr>data := data e @ filter (\<lambda>x. predicate sp x = k) xs\<rparr>)) (entries sp)"
  have a: "map (\<lambda>(k, e). (k, e\<lparr>data := []\<rparr>)) ?es = entries sp"
    unfolding map_map using assms(2) by (intro map_idI) auto
  have b: "fold (\<lambda>(k, e). fire (port e) (data e) st) ?es s =
           fold (\<lambda>(k, e). fire (port e) (filter (\<lambda>x. predicate sp x = k) xs) st) (entries sp) s"
    unfolding fold_map using assms(2) by (intro fold_cong) auto
  show ?thesis
    unfolding splitter_receive_def sort_elements_eq [OF assms(1)] send_elements_eq
    by (simp add: a [unfolded map_map] b)
qed

lemma fold_entries_by_key:
  assumes "distinct (map fst (entries sp))"
  shows "fold (\<lambda>(k, e). F k (port e)) (entries sp) s =
         fold (\<lambda>k. F k (port_of sp k)) (map fst (entries sp)) s"
proof -
  have "\<And>k e. (k, e) \<in> set (entries sp) \<Longrightarrow> port_of sp k = port e"
    using assms by (simp add: port_of_def map_find_map_of)
  then show ?thesis
    unfolding fold_map by (intro fold_cong) auto
qed

lemma map_insert_keys:
  "set (map fst (map_insert k v m)) = insert k (set (map fst m))"
  by (induction k v m rule: map_insert.induct) (simp_all add: insert_commute)

lemma map_insert_sorted:
  "sorted_wrt (<) (map fst m) \<Longrightarrow> sorted_wrt (<) (map fst (map_insert k v m))"
proof (induction m)
  case Nil
  show ?case by simp
next
  case (Cons a m)
  obtain k' v' where a: "a = (k', v')" by (cases a)
  have s: "set (map fst (map_insert k v m)) = insert k (set (map fst m))"
    by (rule map_insert_keys)
  show ?case using Cons a s by (auto simp del: set_map)
qed

lemma map_insert_values:
  "set (map_insert k v m) \<subseteq> insert (k, v) (set m)"
  by (induction m) (auto split: if_splits)

lemma out_invariant:
  assumes "sorted_wrt (<) (map fst (entries sp))"
    and "\<forall>ke \<in> set (entries sp). data (snd ke) = []"
    and "out sp k st = (p, sp', st')"
  shows "sorted_wrt (<) (map fst (entries sp'))"
    and "\<forall>ke \<in> set (entries sp'). data (snd ke) = []"
    and "set (map fst (entries sp')) = insert k (set (map fst (entries sp)))"
    and "predicate sp' = predicate sp"
    and "out_num_dropped sp' = out_num_dropped sp"
proof -
  show "sorted_wrt (<) (map fst (entries sp'))"
    using assms(1,3) map_insert_sorted [of "entries sp" k]
    by (auto simp: out_def Let_def split: option.splits prod.splits)
  show "\<forall>ke \<in> set (entries sp'). data (snd ke) = []"
  proof (cases "map_find k (entries sp)")
    case None
    obtain q st2 where q: "new_event_out_port st = (q, st2)"
      by (cases "new_event_out_port st")
    have e: "entries sp' = map_insert k \<lparr>port = q, data = []\<rparr> (entries sp)"
      using None q assms(3) by (auto simp: out_def)
    show ?thesis
    proof
      fix ke assume "ke \<in> set (entries sp')"
      then have "ke = (k, \<lparr>port = q, data = []\<rparr>) \<or> ke \<in> set (entries sp)"
        using map_insert_values [of k "\<lparr>port = q, data = []\<rparr>" "entries sp"] e by auto
      then show "data (snd ke) = []" using assms(2) by auto
    qed
  next
    case (Some e)
    then show ?thesis using assms(2,3) by (auto simp: out_def)
  qed
  show "set (map fst (entries sp')) = insert k (set (map fst (entries sp)))"
  proof (cases "map_find k (entries sp)")
    case None
    then show ?thesis using assms(3) map_insert_keys [of k _ "entries sp"]
      by (auto simp: out_def Let_def split: prod.splits simp del: set_map)
  next
    case (Some e)
    then have "k \<in> fst ` set (entries sp)"
      using map_find_None_iff [of k "entries sp"] by auto
    then show ?thesis using Some assms(3) by (auto simp: out_def)
  qed
  show "predicate sp' = predicate sp"
    using assms(3) by (auto simp: out_def Let_def split: option.splits prod.splits)
  show "out_num_dropped sp' = out_num_dropped sp"
    using assms(3) by (auto simp: out_def Let_def split: option.splits prod.splits)
qed

lemma request_outputs_invariant:
  "sorted_wrt (<) (map fst (entries sp)) \<Longrightarrow>
   \<forall>ke \<in> set (entries sp). data (snd ke) = [] \<Longrightarrow>
   request_outputs ks sp st = (sp', st') \<Longrightarrow>
     sorted_wrt (<) (map fst (entries sp')) \<and>
     (\<forall>ke \<in> set (entries sp'). data (snd ke) = []) \<and>
     set (map fst (entries sp')) = set (map fst (entries sp)) \<union> set ks \<and>
     predicate sp' = predicate sp \<and> out_num_dropped sp' = out_num_dropped sp"
proof (induction ks arbitrary: sp st)
  case Nil
  then show ?case by simp
next
  case (Cons k ks)
  obtain p sp1 st1 where o: "out sp k st = (p, sp1, st1)" by (cases "out sp k st")
  have r: "request_outputs ks sp1 st1 = (sp', st')" using Cons.prems(3) o by simp
  note i = out_invariant [OF Cons.prems(1,2) o]
  show ?case using Cons.IH [OF i(1,2) r] i(3,4,5) by auto
qed

lemma request_outputs_new:
  assumes "request_outputs ks (new_list_splitter pred d0) st0 = (sp, st1)"
  shows "map fst (entries sp) = sorted_list_of_set (set ks)"
    and "\<forall>ke \<in> set (entries sp). data (snd ke) = []"
    and "predicate sp = pred" and "out_num_dropped sp = d0"
proof -
  have i: "sorted_wrt (<) (map fst (entries sp)) \<and>
     (\<forall>ke \<in> set (entries sp). data (snd ke) = []) \<and>
     set (map fst (entries sp)) = set (map fst (entries (new_list_splitter pred d0))) \<union> set ks \<and>
     predicate sp = predicate (new_list_splitter pred d0) \<and>
     out_num_dropped sp = out_num_dropped (new_list_splitter pred d0)"
    by (rule request_outputs_invariant [OF _ _ assms]) (simp_all add: new_list_splitter_def)
  then have "sorted (map fst (entries sp))" "distinct (map fst (entries sp))"
    "set (map fst (entries sp)) = set ks"
    by (simp_all add: strict_sorted_iff new_list_splitter_def del: set_map)
  then show "map fst (entries sp) = sorted_list_of_set (set ks)"
    by (metis sorted_list_of_set.idem_if_sorted_distinct)
  show "\<forall>ke \<in> set (entries sp). data (snd ke) = []" using i by simp
  show "predicate sp = pred" "out_num_dropped sp = d0"
    using i by (simp_all add: new_list_splitter_def)
qed

text \<open>
  Claim C4. A splitter whose outputs were requested for the keys \<open>A\<close> and \<open>B\<close>, in any
  order and any number of times, and for no other key, receives the sequence
  \<open>[a1, a2, c, b]\<close> with the keys \<open>A, A, C, B\<close>. In this one firing the port of \<open>A\<close>
  fires once, with \<open>[a1, a2]\<close>; the port of \<open>B\<close> fires once, with \<open>[b]\<close>; nothing else
  fires, so \<open>c\<close> reaches no output; the drop counter goes from \<open>d0\<close> to \<open>d0 + 1\<close>
  (the counter is a \<^verbatim>\<open>size_t\<close>, the addition is that of the machine); the buffers are
  empty again afterwards. The counter \<open>d0\<close> at the start is any value.
\<close>

theorem splitter_drop_accounting:
  assumes "set ks = {A, B}" and "A \<noteq> B" and "C \<noteq> A" and "C \<noteq> B"
    and "pred a1 = A" and "pred a2 = A" and "pred c = C" and "pred b = B"
  shows "(case request_outputs ks (new_list_splitter pred d0) st0 of
      (sp, st1) \<Rightarrow>
        out_num_dropped sp = d0 \<and>
        splitter_receive sp [a1, a2, c, b] st s =
          (sp\<lparr>out_num_dropped := d0 + 1\<rparr>,
           if A < B then fire (port_of sp B) [b] st (fire (port_of sp A) [a1, a2] st s)
           else fire (port_of sp A) [a1, a2] st (fire (port_of sp B) [b] st s)))"
proof -
  obtain sp st1 where r: "request_outputs ks (new_list_splitter pred d0) st0 = (sp, st1)"
    by (cases "request_outputs ks (new_list_splitter pred d0) st0")
  note n = request_outputs_new [OF r]
  have keys: "map fst (entries sp) = (if A < B then [A, B] else [B, A])"
    using n(1) assms(1,2) by (auto simp: insert_commute)
  have d: "distinct (map fst (entries sp))" using n(1) by simp
  have ks: "fst ` set (entries sp) = {A, B}"
    using keys by (metis assms(1) n(1) list.set_map set_sorted_list_of_set List.finite_set)
  define xs where "xs = [a1, a2, c, b]"
  have dropped: "filter (\<lambda>x. pred x \<noteq> A \<and> pred x \<noteq> B) xs = [c]"
    using assms(2-8) by (simp add: xs_def)
  have "splitter_receive sp xs st s =
     (sp\<lparr>out_num_dropped := d0 + 1\<rparr>,
      fold (\<lambda>(k, e). fire (port e) (filter (\<lambda>x. pred x = k) xs) st) (entries sp) s)"
    by (simp add: splitter_receive_eq [OF d n(2)] n(3,4) ks dropped)
  also have "fold (\<lambda>(k, e). fire (port e) (filter (\<lambda>x. pred x = k) xs) st) (entries sp) s =
      fold (\<lambda>k. fire (port_of sp k) (filter (\<lambda>x. pred x = k) xs) st) (map fst (entries sp)) s"
    by (rule fold_entries_by_key [OF d, of "\<lambda>k p. fire p (filter (\<lambda>x. pred x = k) xs) st"])
  finally have "splitter_receive sp [a1, a2, c, b] st s =
     (sp\<lparr>out_num_dropped := d0 + 1\<rparr>,
      fold (\<lambda>k. fire (port_of sp k) (filter (\<lambda>x. pred x = k) [a1, a2, c, b]) st)
        (map fst (entries sp)) s)"
    by (simp add: xs_def)
  then show ?thesis using r n(4) keys assms(2-8) by auto
qed

text \<open>
  Outputs for the keys 1 and 2, with a handler on each that logs what it receives; the
  key of an element is its tens digit. The elements 10 and 11 reach output 1, the element
  20 reaches output 2, the element 30 is dropped and the counter goes from 5 to 6.
\<close>

theorem splitter_drop_accounting_witness:
  "set [1, 2] = {1, 2::nat} \<and> (1::nat) \<noteq> 2 \<and> (3::nat) \<noteq> 1 \<and> (3::nat) \<noteq> 2
   \<and> (10::nat) div 10 = 1 \<and> (11::nat) div 10 = 1 \<and> (30::nat) div 10 = 3 \<and> (20::nat) div 10 = 2
   \<and> (case request_outputs [1, 2] (new_list_splitter (\<lambda>x::nat. x div 10) 5)
             \<lparr>vectors = (\<lambda>a. []), next_free = 0\<rparr> of
         (sp, st1) \<Rightarrow>
           splitter_receive sp [10, 11, 30, 20]
             (port_connect (port_of sp 2) (recorder (2::nat))
                (port_connect (port_of sp 1) (recorder 1) st1)) []
           = (sp\<lparr>out_num_dropped := 6\<rparr>, [(1, [10, 11]), (2, [20])]))"
  using splitter_drop_accounting [where ks = "[1, 2]" and A = "1::nat" and B = 2 and C = 3
      and pred = "\<lambda>x::nat. x div 10" and ?a1.0 = 10 and ?a2.0 = 11 and c = 30 and b = 20
      and ?d0.0 = 5
      and ?st0.0 = "\<lparr>vectors = (\<lambda>a. []), next_free = 0\<rparr> :: (nat list, (nat \<times> nat list) list) port_store"
      and st = "port_connect \<lparr>event_handlers = 1\<rparr> (recorder (2::nat))
         (port_connect \<lparr>event_handlers = 0\<rparr> (recorder 1)
            \<lparr>vectors = (\<lambda>a. []), next_free = Suc (Suc 0)\<rparr>)" and s = "[]"]
  by (simp add: out_def new_list_splitter_def new_event_out_port_def copy_port_def port_of_def
      port_connect_def fire_def recorder_def)

text \<open>
  Claim C5, as stated, fails: the output for key 2 is requested first and the output for
  key 1 second, each gets a handler that logs what it receives, and the range \<open>[2, 1]\<close>
  is received, the key of an element being the element. The log shows the port of key 1
  firing before the port of key 2.
\<close>

theorem splitter_insertion_order_counterexample:
  "snd (splitter_receive
          (fst (request_outputs [2, 1] (new_list_splitter id 0)
                  (\<lparr>vectors = (\<lambda>a. []), next_free = 0\<rparr>
                     :: (nat list, (nat \<times> nat list) list) port_store)))
          [2, 1]
          (port_connect
             (port_of (fst (request_outputs [2, 1] (new_list_splitter id 0)
                  (\<lparr>vectors = (\<lambda>a. []), next_free = 0\<rparr>
                     :: (nat list, (nat \<times> nat list) list) port_store))) 1)
             (recorder 1)
             (port_connect
                (port_of (fst (request_outputs [2, 1] (new_list_splitter id 0)
                  (\<lparr>vectors = (\<lambda>a. []), next_free = 0\<rparr>
                     :: (nat list, (nat \<times> nat list) list) port_store))) 2)
                (recorder 2)
                (snd (request_outputs [2, 1] (new_list_splitter id 0)
                  \<lparr>vectors = (\<lambda>a. []), next_free = 0\<rparr>))))
          [])
     = [(1, [1]), (2, [2])]
   \<and> [(1::nat, [1::nat]), (2, [2])] \<noteq> [(2, [2]), (1, [1])]"
  by (simp add: out_def new_list_splitter_def new_event_out_port_def copy_port_def port_of_def
      port_connect_def fire_def recorder_def splitter_receive_def)

text \<open>
  Claim C5, amended. In one firing the output ports fire in ascending order of their keys,
  which is the order in which the map of entries is iterated, whatever the order in which
  the outputs were requested; each port fires once, with the elements of its key in the
  order they came.
\<close>

theorem splitter_fires_in_key_order:
  "(case request_outputs ks (new_list_splitter pred d0) st0 of
      (sp, st1) \<Rightarrow>
        snd (splitter_receive sp xs st s) =
          fold (\<lambda>k. fire (port_of sp k) (filter (\<lambda>x. pred x = k) xs) st)
            (sorted_list_of_set (set ks)) s)"
proof -
  obtain sp st1 where r: "request_outputs ks (new_list_splitter pred d0) st0 = (sp, st1)"
    by (cases "request_outputs ks (new_list_splitter pred d0) st0")
  note n = request_outputs_new [OF r]
  have d: "distinct (map fst (entries sp))" using n(1) by simp
  have "snd (splitter_receive sp xs st s) =
      fold (\<lambda>(k, e). fire (port e) (filter (\<lambda>x. pred x = k) xs) st) (entries sp) s"
    by (simp add: splitter_receive_eq [OF d n(2)] n(3))
  also have "\<dots> = fold (\<lambda>k. fire (port_of sp k) (filter (\<lambda>x. pred x = k) xs) st)
      (map fst (entries sp)) s"
    by (rule fold_entries_by_key [OF d, of "\<lambda>k p. fire p (filter (\<lambda>x. pred x = k) xs) st"])
  finally show ?thesis using r n(1) by simp
qed

section \<open>list\_collector: properties\<close>

lemma buffer_collect_fold_receive:
  "buffer_collect (fold collector_receive rs c) = buffer_collect c @ concat rs"
  by (induction rs arbitrary: c) (simp_all add: collector_receive_def)

lemma collector_run_pull:
  "collector_run (Pull # ops) c =
     (fst (get_state c) # fst (collector_run ops (snd (get_state c))),
      snd (collector_run ops (snd (get_state c))))"
  by (simp add: split_beta)

lemma get_state_eq:
  "get_state c = (buffer_collect c, c\<lparr>buffer_state := buffer_collect c, buffer_collect := []\<rparr>)"
  by (simp add: get_state_def Let_def)

lemma collector_run_accounts:
  "concat (fst (collector_run ops c)) @ buffer_collect (snd (collector_run ops c)) =
     buffer_collect c @ concat (received ops)"
proof (induction ops arbitrary: c)
  case Nil
  show ?case by simp
next
  case (Cons x ops)
  show ?case
  proof (cases x)
    case (Receive r)
    then show ?thesis
      using Cons [of "collector_receive r c"] by (simp add: collector_receive_def)
  next
    case Pull
    then show ?thesis
      using Cons [of "snd (get_state c)"]
      by (simp only: collector_run_pull) (simp add: get_state_eq)
  qed
qed

lemma collector_run_append:
  "collector_run (ops @ ops') c =
     (fst (collector_run ops c) @ fst (collector_run ops' (snd (collector_run ops c))),
      snd (collector_run ops' (snd (collector_run ops c))))"
proof (induction ops arbitrary: c)
  case Nil
  show ?case by simp
next
  case (Cons x ops)
  show ?case
  proof (cases x)
    case (Receive r)
    then show ?thesis using Cons by simp
  next
    case Pull
    then show ?thesis
      using Cons [of "snd (get_state c)"]
      by (simp only: collector_run_pull append_Cons) simp
  qed
qed

text \<open>
  Claim C6. Pulling a collector right after its construction yields the empty sequence;
  after it received [1, 2, 3], the pull yields [1, 2, 3]; the pull after that, with nothing
  received in between, yields the empty sequence, and so does every pull that follows
  another pull directly. Over any run of receives and pulls that ends with a pull, the
  pulled results, one after the other, are the received elements, one after the other:
  every received element is in exactly one pulled result.
\<close>

theorem collector_windowing:
  "fst (get_state (new_list_collector :: int list_collector)) = []
   \<and> fst (get_state (collector_receive [1, 2, 3] (new_list_collector :: int list_collector))) = [1, 2, 3]
   \<and> fst (get_state (snd (get_state (collector_receive [1, 2, 3] (new_list_collector :: int list_collector))))) = []
   \<and> fst (get_state (snd (get_state c))) = []
   \<and> concat (fst (collector_run (ops @ [Pull]) new_list_collector)) = concat (received ops)"
proof -
  have "concat (fst (collector_run (ops @ [Pull]) new_list_collector)) = concat (received ops)"
    using collector_run_accounts [of ops new_list_collector]
    by (simp add: collector_run_append collector_run_pull get_state_eq new_list_collector_def
        del: collector_run.simps(3))
  then show ?thesis
    by (simp add: get_state_def Let_def new_list_collector_def collector_receive_def)
qed

text \<open>
  Claim C10. After a pull, or after construction, the next pull yields the concatenation
  of the ranges received since, in the order they arrived, each range in its own order.
\<close>

theorem collector_pull_is_concatenation:
  "fst (get_state (fold collector_receive rs (snd (get_state c)))) = concat rs
   \<and> fst (get_state (fold collector_receive rs new_list_collector)) = concat rs"
proof -
  have a: "\<And>d. fst (get_state d) = buffer_collect d"
    by (simp add: get_state_def Let_def)
  show ?thesis
    by (simp add: a buffer_collect_fold_receive) (simp add: get_state_def Let_def new_list_collector_def)
qed

section \<open>merge\_node: properties\<close>

text \<open>
  Claim C7, as stated, fails: the sinks are not always pulled in argument order. With
  the arguments evaluated from right to left, sink 1 is pulled before sink 0.
\<close>

theorem merge_node_pull_order_counterexample:
  "snd (merge_node_call Right_to_left
          \<lparr>in0 = probe 0 (3::int), in1 = probe 1 (4::int), op = (+)\<rparr> []) = [1, 0]
   \<and> snd (merge_node_call Right_to_left
          \<lparr>in0 = probe 0 (3::int), in1 = probe 1 (4::int), op = (+)\<rparr> []) \<noteq> [0, 1]"
  by (simp add: merge_node_call_def probe_def)

text \<open>
  Claim C7, amended. Whatever the order in which the compiler evaluates the arguments:
  with sink 0 producing \<open>a\<close> and sink 1 producing \<open>b\<close> (3 and 4 in the claim) the node
  returns \<open>f a b\<close>; after sink 0 is changed to produce \<open>c\<close> (5 in the claim) it returns
  \<open>f c b\<close>; each invocation pulls each of the two sinks once, and nothing is kept from
  the invocation before. The value of sink 0 is the first argument and the value of
  sink 1 the second. For sources that only read the program state, the node returns the
  operation applied to what they read at the time of the call.
\<close>

theorem merge_node_repulls_every_input:
  "(let n = \<lparr>in0 = probe 0 a, in1 = probe 1 b, op = f\<rparr>;
        (r1, log1) = merge_node_call ord n [];
        n' = n\<lparr>in0 := probe 0 c\<rparr>;
        (r2, log2) = merge_node_call ord n' log1
    in r1 = f a b \<and> r2 = f c b \<and> sort log1 = [0, 1] \<and> sort log2 = [0, 0, 1, 1])
   \<and> merge_node_call ord \<lparr>in0 = reading g0, in1 = reading g1, op = f'\<rparr> s = (f' (g0 s) (g1 s), s)"
  by (cases ord) (simp_all add: merge_node_call_def probe_def reading_def)

section \<open>The ownership tree: properties\<close>

subsection \<open>The traversal\<close>

lemma fullorder_mem: "At n e \<in> set (fullorder f) \<longleftrightarrow> n \<in> set (node_ids f)"
  by (induction f) (auto, (cases e; simp)+)

lemma End_not_in_fullorder: "End \<notin> set (fullorder f)"
  by (induction f) auto

lemma fullorder_elem:
  "x \<in> set (fullorder f) \<Longrightarrow> \<exists>n e. x = At n e \<and> n \<in> set (node_ids f)"
  using fullorder_mem End_not_in_fullorder by (cases x) auto

lemma fullorder_distinct: "distinct (node_ids f) \<Longrightarrow> distinct (fullorder f)"
proof (induction f)
  case Empty
  show ?case by simp
next
  case (Tree n v c s)
  have "set (fullorder c) \<inter> set (fullorder s) = {}"
  proof (rule ccontr)
    assume "set (fullorder c) \<inter> set (fullorder s) \<noteq> {}"
    then obtain x where x: "x \<in> set (fullorder c)" "x \<in> set (fullorder s)" by auto
    obtain m e where "x = At m e" "m \<in> set (node_ids c)" using fullorder_elem [OF x(1)] by auto
    moreover have "m \<in> set (node_ids s)"
      using x(2) \<open>x = At m e\<close> by (simp add: fullorder_mem)
    ultimately show False using Tree.prems by auto
  qed
  then show ?case using Tree by (auto simp: fullorder_mem)
qed

lemma children_of_None_iff: "children_of n f = None \<longleftrightarrow> n \<notin> set (node_ids f)"
  by (induction f) (auto split: option.splits)

lemma children_of_ids:
  "children_of n f = Some cs \<Longrightarrow> set (node_ids cs) \<subseteq> set (node_ids f)"
  by (induction f) (auto split: option.splits if_splits)

lemma fullorder_split:
  "children_of n f = Some cs \<Longrightarrow>
     \<exists>pre post. fullorder f = pre @ At n Leading # fullorder cs @ At n Trailing # post"
proof (induction f)
  case Empty
  then show ?case by simp
next
  case (Tree m v c s)
  show ?case
  proof (cases "m = n")
    case True
    then have "fullorder (Tree m v c s) = [] @ At n Leading # fullorder cs @ At n Trailing # fullorder s"
      using Tree.prems by simp
    then show ?thesis by blast
  next
    case False
    show ?thesis
    proof (cases "children_of n c")
      case (Some x)
      then have "x = cs" using False Tree.prems by simp
      then obtain pre post where
        "fullorder c = pre @ At n Leading # fullorder cs @ At n Trailing # post"
        using Tree.IH(1) Some by blast
      then have "fullorder (Tree m v c s) =
          (At m Leading # pre) @ At n Leading # fullorder cs @ At n Trailing #
            (post @ At m Trailing # fullorder s)"
        by simp
      then show ?thesis by blast
    next
      case None
      then have "children_of n s = Some cs" using False Tree.prems by simp
      then obtain pre post where
        "fullorder s = pre @ At n Leading # fullorder cs @ At n Trailing # post"
        using Tree.IH(2) by blast
      then have "fullorder (Tree m v c s) =
          (At m Leading # fullorder c @ At m Trailing # pre) @ At n Leading # fullorder cs @
            At n Trailing # post"
        by simp
      then show ?thesis by blast
    qed
  qed
qed

lemma successor_found:
  "it \<notin> set xs \<Longrightarrow>
     successor (xs @ it # post) it = (case post of [] \<Rightarrow> End | y # ys \<Rightarrow> y)"
proof (induction xs)
  case Nil
  show ?case by (cases post) simp_all
next
  case (Cons x xs)
  then show ?case by (cases "xs @ it # post") auto
qed

lemma takeWhile_upto:
  "x \<notin> set xs \<Longrightarrow> takeWhile (\<lambda>it. it \<noteq> x) (xs @ x # ys) = xs"
  by (induction xs) auto

lemma iterator_range_subtree:
  assumes "distinct order" and "End \<notin> set order"
    and "order = pre @ first # mid @ lst # post"
  shows "iterator_range order first (successor order lst) = first # mid @ [lst]"
proof -
  have a: "first \<notin> set pre" using assms(1,3) by auto
  have b: "lst \<notin> set (pre @ first # mid)" using assms(1,3) by auto
  have s: "successor order lst = (case post of [] \<Rightarrow> End | y # ys \<Rightarrow> y)"
    using successor_found [OF b, of post] assms(3) by simp
  have d: "dropWhile (\<lambda>it. it \<noteq> first) order = first # mid @ lst # post"
    using a assms(3) by (auto simp: dropWhile_append3)
  show ?thesis
  proof (cases post)
    case Nil
    then have "successor order lst = End" using s by simp
    moreover have "End \<notin> set (first # mid @ [lst])" using assms(2,3) by auto
    ultimately show ?thesis
      unfolding iterator_range_def d using Nil by (auto simp: takeWhile_eq_all_conv)
  next
    case (Cons y ys)
    then have sy: "successor order lst = y" using s by simp
    have "y \<notin> set (first # mid @ [lst])" using assms(1,3) Cons by auto
    then have "takeWhile (\<lambda>it. it \<noteq> y) ((first # mid @ [lst]) @ y # ys) = first # mid @ [lst]"
      by (rule takeWhile_upto)
    then show ?thesis
      unfolding iterator_range_def d sy using Cons by simp
  qed
qed

subsection \<open>Erasing\<close>

lemma node_ids_append_forest: "node_ids (append_forest a b) = node_ids a @ node_ids b"
  by (induction a) simp_all

lemma fullorder_append_forest: "fullorder (append_forest a b) = fullorder a @ fullorder b"
  by (induction a) simp_all

lemma forest_size_ids: "forest_size f = length (node_ids f)"
  by (induction f) simp_all

lemma node_ids_prune: "node_ids (prune dead f) = filter (\<lambda>m. \<not> dead m) (node_ids f)"
  by (induction f) (simp_all add: node_ids_append_forest)

lemma fullorder_prune:
  "fullorder (prune dead f) =
     filter (\<lambda>it. case it of At m e \<Rightarrow> \<not> dead m | End \<Rightarrow> True) (fullorder f)"
  by (induction f) (simp_all add: fullorder_append_forest)

lemma value_at_None_iff: "value_at n f = None \<longleftrightarrow> n \<notin> set (node_ids f)"
  by (induction f) (auto split: option.splits)

lemma value_at_append_forest:
  "value_at m (append_forest a b) =
     (case value_at m a of Some w \<Rightarrow> Some w | None \<Rightarrow> value_at m b)"
  by (induction a) (simp_all split: option.splits)

lemma value_at_prune: "\<not> dead m \<Longrightarrow> value_at m (prune dead f) = value_at m f"
proof (induction f)
  case Empty
  show ?case by simp
next
  case (Tree n v c s)
  then show ?case by (auto simp: value_at_append_forest split: option.splits)
qed

lemma prune_all_dead: "\<forall>m \<in> set (node_ids g). dead m \<Longrightarrow> prune dead g = Empty"
  by (induction g) simp_all

lemma prune_none_dead: "\<forall>m \<in> set (node_ids g). \<not> dead m \<Longrightarrow> prune dead g = g"
  by (induction g) simp_all

lemma remove_subtree_absent: "n \<notin> set (node_ids g) \<Longrightarrow> remove_subtree n g = g"
  by (induction g) simp_all

lemma prune_subtree:
  "distinct (node_ids f) \<Longrightarrow> children_of n f = Some cs \<Longrightarrow>
     prune (\<lambda>m. m = n \<or> m \<in> set (node_ids cs)) f = remove_subtree n f"
proof (induction f)
  case Empty
  then show ?case by simp
next
  case (Tree m v c s)
  let ?dead = "\<lambda>m. m = n \<or> m \<in> set (node_ids cs)"
  show ?case
  proof (cases "m = n")
    case True
    then have cs: "cs = c" using Tree.prems by simp
    have "prune ?dead c = Empty" by (rule prune_all_dead) (simp add: cs)
    moreover have "prune ?dead s = s"
      by (rule prune_none_dead) (use Tree.prems(1) True cs in auto)
    ultimately show ?thesis using True by simp
  next
    case False
    show ?thesis
    proof (cases "children_of n c")
      case (Some x)
      then have x: "children_of n c = Some cs" using False Tree.prems by simp
      have inc: "n \<in> set (node_ids c)" using x children_of_None_iff [of n c] by auto
      have sub: "set (node_ids cs) \<subseteq> set (node_ids c)" using x by (rule children_of_ids)
      have "\<not> ?dead m" using False sub Tree.prems(1) by auto
      moreover have "prune ?dead s = s"
        by (rule prune_none_dead) (use Tree.prems(1) inc sub in auto)
      moreover have "remove_subtree n s = s"
        by (rule remove_subtree_absent) (use Tree.prems(1) inc in auto)
      moreover have "prune ?dead c = remove_subtree n c"
        using Tree.IH(1) Tree.prems(1) x by simp
      ultimately show ?thesis using False by simp
    next
      case None
      then have x: "children_of n s = Some cs" using False Tree.prems by simp
      have nc: "n \<notin> set (node_ids c)" using None by (simp add: children_of_None_iff)
      have ins: "n \<in> set (node_ids s)" using x children_of_None_iff [of n s] by auto
      have sub: "set (node_ids cs) \<subseteq> set (node_ids s)" using x by (rule children_of_ids)
      have "\<not> ?dead m" using False sub Tree.prems(1) by auto
      moreover have "prune ?dead c = c"
        by (rule prune_none_dead) (use Tree.prems(1) nc sub in auto)
      moreover have "remove_subtree n c = c"
        by (rule remove_subtree_absent) (rule nc)
      moreover have "prune ?dead s = remove_subtree n s"
        using Tree.IH(2) Tree.prems(1) x by simp
      ultimately show ?thesis using False by simp
    qed
  qed
qed

lemma forest_erase_subtree:
  assumes "distinct (node_ids f)" and "children_of n f = Some cs"
  shows "iterator_range (fullorder f) (At n Leading) (successor (fullorder f) (At n Trailing)) =
           At n Leading # fullorder cs @ [At n Trailing]"
    and "forest_erase f (At n Leading) (successor (fullorder f) (At n Trailing)) =
           (remove_subtree n f, successor (fullorder f) (At n Trailing))"
proof -
  obtain pre post where
    sp: "fullorder f = pre @ At n Leading # fullorder cs @ At n Trailing # post"
    using fullorder_split [OF assms(2)] by blast
  show r: "iterator_range (fullorder f) (At n Leading) (successor (fullorder f) (At n Trailing)) =
           At n Leading # fullorder cs @ [At n Trailing]"
    by (rule iterator_range_subtree [OF fullorder_distinct [OF assms(1)] End_not_in_fullorder sp])
  have "(\<lambda>m. At m Leading \<in> set (At n Leading # fullorder cs @ [At n Trailing]) \<and>
             At m Trailing \<in> set (At n Leading # fullorder cs @ [At n Trailing])) =
        (\<lambda>m. m = n \<or> m \<in> set (node_ids cs))"
    by (auto simp: fullorder_mem)
  then show "forest_erase f (At n Leading) (successor (fullorder f) (At n Trailing)) =
           (remove_subtree n f, successor (fullorder f) (At n Trailing))"
    unfolding forest_erase_def r Let_def
    using prune_subtree [OF assms] by simp
qed

lemma remove_subtree_ids_subset:
  "set (node_ids (remove_subtree n g)) \<subseteq> set (node_ids g)"
  by (induction g) auto

lemma forest_size_remove_subtree:
  "distinct (node_ids f) \<Longrightarrow> children_of n f = Some cs \<Longrightarrow>
     forest_size (remove_subtree n f) + Suc (forest_size cs) = forest_size f"
proof (induction f)
  case Empty
  then show ?case by simp
next
  case (Tree m v c s)
  show ?case
  proof (cases "m = n")
    case True
    then show ?thesis using Tree.prems by simp
  next
    case False
    show ?thesis
    proof (cases "children_of n c")
      case (Some x)
      then have x: "children_of n c = Some cs" using False Tree.prems by simp
      have "n \<in> set (node_ids c)" using x children_of_None_iff [of n c] by auto
      then have "remove_subtree n s = s"
        using Tree.prems(1) by (intro remove_subtree_absent) auto
      then show ?thesis using False Tree.IH(1) Tree.prems(1) x by simp
    next
      case None
      then have x: "children_of n s = Some cs" using False Tree.prems by simp
      have "remove_subtree n c = c"
        using None by (intro remove_subtree_absent) (simp add: children_of_None_iff)
      then show ?thesis using False Tree.IH(2) Tree.prems(1) x by simp
    qed
  qed
qed

lemma children_of_remove_subtree:
  "distinct (node_ids f) \<Longrightarrow> children_of m f = Some x \<Longrightarrow> m \<noteq> n \<Longrightarrow>
   n \<notin> set (node_ids x) \<Longrightarrow> m \<in> set (node_ids (remove_subtree n f)) \<Longrightarrow>
     children_of m (remove_subtree n f) = Some x"
proof (induction f)
  case Empty
  then show ?case by simp
next
  case (Tree k v c s)
  note sub_c = remove_subtree_ids_subset [of n c]
  note sub_s = remove_subtree_ids_subset [of n s]
  show ?case
  proof (cases "k = n")
    case True
    then have "m \<in> set (node_ids s)" using Tree.prems(5) by simp
    then have "m \<notin> set (node_ids c)" using Tree.prems(1) by auto
    then have "children_of m c = None" by (simp add: children_of_None_iff)
    then show ?thesis using True Tree.prems(2,3) by simp
  next
    case kn: False
    show ?thesis
    proof (cases "k = m")
      case True
      then have "x = c" using Tree.prems(2) by simp
      then have "remove_subtree n c = c"
        using Tree.prems(4) by (intro remove_subtree_absent) simp
      then show ?thesis using kn True \<open>x = c\<close> by simp
    next
      case km: False
      show ?thesis
      proof (cases "children_of m c")
        case (Some y)
        then have y: "children_of m c = Some x" using km Tree.prems(2) by simp
        have "m \<in> set (node_ids c)" using y children_of_None_iff [of m c] by auto
        then have "m \<notin> set (node_ids (remove_subtree n s))"
          using Tree.prems(1) sub_s by auto
        then have "m \<in> set (node_ids (remove_subtree n c))"
          using Tree.prems(5) kn km by auto
        then have "children_of m (remove_subtree n c) = Some x"
          using Tree.IH(1) Tree.prems(1,3,4) y by simp
        then show ?thesis using kn km by simp
      next
        case None
        then have y: "children_of m s = Some x" using km Tree.prems(2) by simp
        have "m \<notin> set (node_ids c)" using None by (simp add: children_of_None_iff)
        then have a: "m \<notin> set (node_ids (remove_subtree n c))" using sub_c by auto
        then have "m \<in> set (node_ids (remove_subtree n s))"
          using Tree.prems(5) kn km by auto
        then have "children_of m (remove_subtree n s) = Some x"
          using Tree.IH(2) Tree.prems(1,3,4) y by simp
        moreover have "children_of m (remove_subtree n c) = None"
          using a by (simp add: children_of_None_iff)
        ultimately show ?thesis using kn km by simp
      qed
    qed
  qed
qed

text \<open>
  Claim C8. In a forest whose nodes are distinct, for a position on a node \<open>n\<close> of the
  forest, on either edge, with \<open>M\<close> descendants: the range from the leading bound of
  \<open>n\<close> to one past its trailing bound holds the two entries of \<open>n\<close> and, between them,
  the entries of its descendants, and nothing else; \<^verbatim>\<open>erase_with_subtree\<close> returns the
  forest without the node and what is below it, and the iterator one past the trailing
  bound; the forest has \<open>M + 1\<close> nodes less; the nodes left are the nodes that are not in
  the subtree, in the order they had; the entries of the traversal outside the range are all
  still there, in the order they had, so an iterator to one of them still points into the
  forest; every node left holds the value it held, and every node left that does not have
  \<open>n\<close> below it has the children it had, with all that is below them.
\<close>

theorem erase_with_subtree_removes_subtree:
  assumes "distinct (node_ids f)" and "At n e \<in> set (fullorder f)"
  shows "\<exists>f' cs.
      erase_with_subtree f (At n e) = Some (f', successor (fullorder f) (At n Trailing)) \<and>
      children_of n f = Some cs \<and>
      iterator_range (fullorder f) (At n Leading) (successor (fullorder f) (At n Trailing)) =
        At n Leading # fullorder cs @ [At n Trailing] \<and>
      f' = remove_subtree n f \<and>
      forest_size f' + (length (descendants n f) + 1) = forest_size f \<and>
      node_ids f' = filter (\<lambda>m. m \<noteq> n \<and> m \<notin> set (descendants n f)) (node_ids f) \<and>
      fullorder f' =
        filter (\<lambda>it. it \<notin> set (At n Leading # fullorder cs @ [At n Trailing])) (fullorder f) \<and>
      (\<forall>m \<in> set (node_ids f').
         value_at m f' = value_at m f \<and>
         (n \<notin> set (descendants m f) \<longrightarrow> children_of m f' = children_of m f))"
proof -
  have n: "n \<in> set (node_ids f)" using assms(2) by (simp add: fullorder_mem)
  then obtain cs where cs: "children_of n f = Some cs"
    using children_of_None_iff [of n f] by auto
  let ?lst = "successor (fullorder f) (At n Trailing)"
  let ?dead = "\<lambda>m. m = n \<or> m \<in> set (node_ids cs)"
  define f' where "f' = remove_subtree n f"
  note er = forest_erase_subtree [OF assms(1) cs]
  have p: "f' = prune ?dead f" using prune_subtree [OF assms(1) cs] by (simp add: f'_def)
  have d: "descendants n f = node_ids cs" by (simp add: descendants_def cs)
  have 1: "erase_with_subtree f (At n e) = Some (f', ?lst)"
    using assms(2) er(2) by (simp add: erase_with_subtree_def f'_def)
  have 2: "forest_size f' + (length (descendants n f) + 1) = forest_size f"
    using forest_size_remove_subtree [OF assms(1) cs] by (simp add: d f'_def forest_size_ids)
  have 3: "node_ids f' = filter (\<lambda>m. m \<noteq> n \<and> m \<notin> set (descendants n f)) (node_ids f)"
    by (simp add: p node_ids_prune d)
  have 4: "fullorder f' =
      filter (\<lambda>it. it \<notin> set (At n Leading # fullorder cs @ [At n Trailing])) (fullorder f)"
    unfolding p fullorder_prune
  proof (rule filter_cong)
    fix it assume "it \<in> set (fullorder f)"
    show "(case it of At m e \<Rightarrow> \<not> (m = n \<or> m \<in> set (node_ids cs)) | End \<Rightarrow> True) =
          (it \<notin> set (At n Leading # fullorder cs @ [At n Trailing]))"
    proof (cases it)
      case (At m e')
      then show ?thesis by (cases e') (auto simp: fullorder_mem)
    next
      case End
      then show ?thesis using End_not_in_fullorder [of cs] by simp
    qed
  qed simp
  have 5: "\<forall>m \<in> set (node_ids f').
         value_at m f' = value_at m f \<and>
         (n \<notin> set (descendants m f) \<longrightarrow> children_of m f' = children_of m f)"
  proof
    fix m assume m: "m \<in> set (node_ids f')"
    then have nd: "\<not> ?dead m" and mf: "m \<in> set (node_ids f)" using 3 d by auto
    have v: "value_at m f' = value_at m f" unfolding p using nd by (rule value_at_prune)
    obtain x where x: "children_of m f = Some x"
      using mf children_of_None_iff [of m f] by auto
    have "n \<notin> set (descendants m f) \<longrightarrow> children_of m f' = children_of m f"
    proof
      assume "n \<notin> set (descendants m f)"
      then have "n \<notin> set (node_ids x)" by (simp add: descendants_def x)
      then show "children_of m f' = children_of m f"
        using children_of_remove_subtree [OF assms(1) x _ _ m [unfolded f'_def]] nd x
        by (simp add: f'_def)
    qed
    then show "value_at m f' = value_at m f \<and>
         (n \<notin> set (descendants m f) \<longrightarrow> children_of m f' = children_of m f)"
      using v by simp
  qed
  show ?thesis using 1 cs er(1) 2 3 4 5 f'_def by blast
qed

text \<open>
  A root with the children \<open>a\<close> and \<open>b\<close>, where \<open>a\<close> has one child, and a second tree
  beside the root. Erasing at \<open>a\<close>, a node with one descendant, leaves the root with the
  child \<open>b\<close> and the second tree, and returns the leading edge of \<open>b\<close>.
\<close>

theorem erase_with_subtree_removes_subtree_witness:
  "distinct (node_ids
      (Tree 1 ''root'' (Tree 2 ''a'' (Tree 3 ''a1'' Empty Empty) (Tree 4 ''b'' Empty Empty))
         (Tree 5 ''other'' Empty Empty)))
   \<and> At 2 Leading \<in> set (fullorder
      (Tree 1 ''root'' (Tree 2 ''a'' (Tree 3 ''a1'' Empty Empty) (Tree 4 ''b'' Empty Empty))
         (Tree 5 ''other'' Empty Empty)))
   \<and> erase_with_subtree
        (Tree 1 ''root'' (Tree 2 ''a'' (Tree 3 ''a1'' Empty Empty) (Tree 4 ''b'' Empty Empty))
           (Tree 5 ''other'' Empty Empty)) (At 2 Leading)
      = Some (Tree 1 ''root'' (Tree 4 ''b'' Empty Empty) (Tree 5 ''other'' Empty Empty),
              At 4 Leading)
   \<and> length (descendants 2
        (Tree 1 ''root'' (Tree 2 ''a'' (Tree 3 ''a1'' Empty Empty) (Tree 4 ''b'' Empty Empty))
           (Tree 5 ''other'' Empty Empty))) = 1"
  using erase_with_subtree_removes_subtree
    [of "Tree 1 ''root'' (Tree 2 ''a'' (Tree 3 ''a1'' Empty Empty) (Tree 4 ''b'' Empty Empty))
           (Tree 5 ''other'' Empty Empty)" 2 Leading]
  by (simp add: descendants_def)

subsection \<open>Inserting children\<close>

lemma top_ids_append_forest: "top_ids (append_forest a b) = top_ids a @ top_ids b"
  by (induction a) simp_all

lemma max_id_bound: "m \<in> set (node_ids f) \<Longrightarrow> m \<le> max_id f"
  by (induction f) auto

lemma fresh_node_new: "fresh_node f \<notin> set (node_ids f)"
  using max_id_bound [of "fresh_node f" f] by (auto simp: fresh_node_def)

lemma insert_before_elsewhere:
  "r \<notin> set (node_ids f) \<Longrightarrow>
     insert_before (At r Trailing) closing n v f =
       (if closing = At r Trailing then append_forest f (Tree n v Empty Empty) else f)"
  by (induction f arbitrary: closing) auto

lemma insert_before_last_child:
  assumes "distinct (node_ids f)" and "children_of r f = Some cs"
    and "closing \<noteq> At r Trailing" and "n \<notin> set (node_ids f)"
  shows "children_of r (insert_before (At r Trailing) closing n v f) =
           Some (append_forest cs (Tree n v Empty Empty))
       \<and> (\<exists>xs ys. node_ids f = xs @ ys \<and>
             node_ids (insert_before (At r Trailing) closing n v f) = xs @ n # ys)
       \<and> value_at n (insert_before (At r Trailing) closing n v f) = Some v
       \<and> (\<forall>m. m \<noteq> n \<longrightarrow>
             value_at m (insert_before (At r Trailing) closing n v f) = value_at m f)"
  using assms
proof (induction f arbitrary: closing)
  case Empty
  then show ?case by simp
next
  case (Tree m w c s)
  let ?pos = "At r Trailing"
  let ?new = "Tree n v Empty Empty"
  have nm: "n \<noteq> m" and nc: "n \<notin> set (node_ids c)" and ns: "n \<notin> set (node_ids s)"
    using Tree.prems(4) by auto
  have vnc: "value_at n c = None" and vns: "value_at n s = None"
    using nc ns by (simp_all add: value_at_None_iff)
  show ?case
  proof (cases "m = r")
    case True
    then have cs: "cs = c" using Tree.prems(2) by simp
    have rc: "r \<notin> set (node_ids c)" and rs: "r \<notin> set (node_ids s)"
      using Tree.prems(1) True by auto
    have ins: "insert_before ?pos closing n v (Tree m w c s) = Tree r w (append_forest c ?new) s"
      using True Tree.prems(3) rc rs by (simp add: insert_before_elsewhere)
    have "node_ids (Tree m w c s) = (r # node_ids c) @ node_ids s
        \<and> node_ids (Tree r w (append_forest c ?new) s) = (r # node_ids c) @ n # node_ids s"
      using True by (simp add: node_ids_append_forest)
    then have ex: "\<exists>xs ys. node_ids (Tree m w c s) = xs @ ys \<and>
        node_ids (Tree r w (append_forest c ?new) s) = xs @ n # ys"
      by blast
    have "value_at n (Tree r w (append_forest c ?new) s) = Some v"
      using nm True vnc by (simp add: value_at_append_forest)
    moreover have "\<forall>k. k \<noteq> n \<longrightarrow>
        value_at k (Tree r w (append_forest c ?new) s) = value_at k (Tree m w c s)"
      using True by (auto simp: value_at_append_forest split: option.splits)
    ultimately show ?thesis unfolding ins using ex cs by simp
  next
    case False
    then have ins: "insert_before ?pos closing n v (Tree m w c s) =
        Tree m w (insert_before ?pos (At m Trailing) n v c) (insert_before ?pos closing n v s)"
      by simp
    show ?thesis
    proof (cases "children_of r c")
      case (Some x)
      then have x: "children_of r c = Some cs" using False Tree.prems(2) by simp
      have "r \<in> set (node_ids c)" using x children_of_None_iff [of r c] by auto
      then have "r \<notin> set (node_ids s)" using Tree.prems(1) by auto
      then have s: "insert_before ?pos closing n v s = s"
        using Tree.prems(3) by (simp add: insert_before_elsewhere)
      have ih: "children_of r (insert_before ?pos (At m Trailing) n v c) =
           Some (append_forest cs ?new)
       \<and> (\<exists>xs ys. node_ids c = xs @ ys \<and>
             node_ids (insert_before ?pos (At m Trailing) n v c) = xs @ n # ys)
       \<and> value_at n (insert_before ?pos (At m Trailing) n v c) = Some v
       \<and> (\<forall>k. k \<noteq> n \<longrightarrow>
             value_at k (insert_before ?pos (At m Trailing) n v c) = value_at k c)"
        using Tree.IH(1) [of "At m Trailing"] Tree.prems(1) x False nc by simp
      then obtain xs ys where xy: "node_ids c = xs @ ys"
        "node_ids (insert_before ?pos (At m Trailing) n v c) = xs @ n # ys" by blast
      have "node_ids (Tree m w c s) = (m # xs) @ (ys @ node_ids s)
        \<and> node_ids (Tree m w (insert_before ?pos (At m Trailing) n v c) s) =
            (m # xs) @ n # (ys @ node_ids s)"
        using xy by simp
      then have ex: "\<exists>xs ys. node_ids (Tree m w c s) = xs @ ys \<and>
        node_ids (Tree m w (insert_before ?pos (At m Trailing) n v c) s) = xs @ n # ys"
        by blast
      show ?thesis unfolding ins s using ih ex False nm
        by (auto split: option.splits)
    next
      case None
      then have x: "children_of r s = Some cs" using False Tree.prems(2) by simp
      have "r \<notin> set (node_ids c)" using None by (simp add: children_of_None_iff)
      then have c: "insert_before ?pos (At m Trailing) n v c = c"
        using False by (simp add: insert_before_elsewhere)
      have ih: "children_of r (insert_before ?pos closing n v s) =
           Some (append_forest cs ?new)
       \<and> (\<exists>xs ys. node_ids s = xs @ ys \<and>
             node_ids (insert_before ?pos closing n v s) = xs @ n # ys)
       \<and> value_at n (insert_before ?pos closing n v s) = Some v
       \<and> (\<forall>k. k \<noteq> n \<longrightarrow>
             value_at k (insert_before ?pos closing n v s) = value_at k s)"
        using Tree.IH(2) [of closing] Tree.prems(1,3) x ns by simp
      then obtain xs ys where xy: "node_ids s = xs @ ys"
        "node_ids (insert_before ?pos closing n v s) = xs @ n # ys" by blast
      have "node_ids (Tree m w c s) = (m # node_ids c @ xs) @ ys
        \<and> node_ids (Tree m w c (insert_before ?pos closing n v s)) =
            (m # node_ids c @ xs) @ n # ys"
        using xy by simp
      then have ex: "\<exists>xs ys. node_ids (Tree m w c s) = xs @ ys \<and>
        node_ids (Tree m w c (insert_before ?pos closing n v s)) = xs @ n # ys"
        by blast
      show ?thesis unfolding ins c using ih ex False nm None vnc
        by (auto split: option.splits)
    qed
  qed
qed

lemma make_child_step:
  assumes "distinct (node_ids (forest fg))" and "self_field root = At r Trailing"
    and "r \<in> set (node_ids (forest fg))"
    and "make_child root nm fg = (c, fg')"
  shows "c \<notin> set (node_ids (forest fg))"
    and "distinct (node_ids (forest fg'))"
    and "set (node_ids (forest fg')) = insert c (set (node_ids (forest fg)))"
    and "child_ids r (forest fg') = child_ids r (forest fg) @ [c]"
    and "value_at c (forest fg') = Some \<lparr>region_field = region root, graph_info_field = nm\<rparr>"
    and "\<forall>m. m \<noteq> c \<longrightarrow> value_at m (forest fg') = value_at m (forest fg)"
proof -
  let ?f = "forest fg"
  let ?v = "\<lparr>region_field = region root, graph_info_field = nm\<rparr>"
  have c: "c = fresh_node ?f"
    and f': "forest fg' = insert_before (At r Trailing) End c ?v ?f"
    using assms(2,4) by (auto simp: make_child_def add_child_def forest_insert_def Let_def)
  show new: "c \<notin> set (node_ids ?f)" using fresh_node_new [of ?f] c by simp
  obtain cs where cs: "children_of r ?f = Some cs"
    using assms(3) children_of_None_iff [of r ?f] by auto
  note i = insert_before_last_child [OF assms(1) cs _ new, of End ?v, folded f']
  obtain xs ys where xy: "node_ids ?f = xs @ ys" "node_ids (forest fg') = xs @ c # ys"
    using i by auto
  show "distinct (node_ids (forest fg'))" using xy assms(1) new by auto
  show "set (node_ids (forest fg')) = insert c (set (node_ids ?f))" using xy by auto
  show "child_ids r (forest fg') = child_ids r ?f @ [c]"
    using i cs by (simp add: child_ids_def top_ids_append_forest)
  show "value_at c (forest fg') = Some ?v" using i by simp
  show "\<forall>m. m \<noteq> c \<longrightarrow> value_at m (forest fg') = value_at m ?f" using i by simp
qed

lemma make_child_in_parent_region:
  "make_child_in parent (region parent) nm fg = make_child parent nm fg"
  by (simp add: make_child_def make_child_in_def)

lemma make_children_unfold:
  "make_children parent (nm # nms) fg =
     (fst (make_child parent nm fg) # fst (make_children parent nms (snd (make_child parent nm fg))),
      snd (make_children parent nms (snd (make_child parent nm fg))))"
  by (simp add: split_beta)

text \<open>
  Claim C9. In a forest whose nodes are distinct, for an owning node whose position is the
  trailing edge of its node \<open>r\<close> in the forest: \<open>K\<close> calls of \<^verbatim>\<open>make_child\<close> return
  \<open>K\<close> pointers; the children of \<open>r\<close> afterwards are the children it had, followed by
  the \<open>K\<close> new ones in the order of the calls, so each call adds one child, as the last
  child, and a node without children has exactly \<open>K\<close>; every new child has the region of
  the parent, and the default name given in its call; the new nodes are new, and the nodes
  that were there keep their values.
\<close>

theorem make_child_appends_last_child:
  assumes "distinct (node_ids (forest fg))" and "self_field root = At r Trailing"
    and "r \<in> set (node_ids (forest fg))"
  shows "(case make_children root names fg of
      (ptrs, fg') \<Rightarrow>
        length ptrs = length names \<and>
        child_ids r (forest fg') = child_ids r (forest fg) @ ptrs \<and>
        map (\<lambda>c. value_at c (forest fg')) ptrs =
          map (\<lambda>nm. Some \<lparr>region_field = region root, graph_info_field = nm\<rparr>) names \<and>
        distinct (node_ids (forest fg')) \<and>
        set ptrs \<inter> set (node_ids (forest fg)) = {} \<and>
        set (node_ids (forest fg')) = set (node_ids (forest fg)) \<union> set ptrs \<and>
        (\<forall>m \<in> set (node_ids (forest fg)). value_at m (forest fg') = value_at m (forest fg)))"
  using assms
proof (induction names arbitrary: fg)
  case Nil
  then show ?case by simp
next
  case (Cons nm nms)
  obtain c fg1 where s: "make_child root nm fg = (c, fg1)" by (cases "make_child root nm fg")
  obtain ptrs fg2 where r: "make_children root nms fg1 = (ptrs, fg2)"
    by (cases "make_children root nms fg1")
  note st = make_child_step [OF Cons.prems s]
  have r1: "r \<in> set (node_ids (forest fg1))" using st(3) Cons.prems(3) by simp
  have ih: "length ptrs = length nms \<and>
        child_ids r (forest fg2) = child_ids r (forest fg1) @ ptrs \<and>
        map (\<lambda>c. value_at c (forest fg2)) ptrs =
          map (\<lambda>nm. Some \<lparr>region_field = region root, graph_info_field = nm\<rparr>) nms \<and>
        distinct (node_ids (forest fg2)) \<and>
        set ptrs \<inter> set (node_ids (forest fg1)) = {} \<and>
        set (node_ids (forest fg2)) = set (node_ids (forest fg1)) \<union> set ptrs \<and>
        (\<forall>m \<in> set (node_ids (forest fg1)). value_at m (forest fg2) = value_at m (forest fg1))"
    using Cons.IH [OF st(2) Cons.prems(2) r1] r by simp
  have m: "make_children root (nm # nms) fg = (c # ptrs, fg2)"
    using s r by (simp only: make_children_unfold) simp
  have c1: "c \<in> set (node_ids (forest fg1))" using st(3) by simp
  have vc: "value_at c (forest fg2) = Some \<lparr>region_field = region root, graph_info_field = nm\<rparr>"
    using ih c1 st(5) by simp
  have old: "\<forall>m \<in> set (node_ids (forest fg)). value_at m (forest fg2) = value_at m (forest fg)"
  proof
    fix m assume a: "m \<in> set (node_ids (forest fg))"
    then have "m \<noteq> c" using st(1) by auto
    then have "value_at m (forest fg1) = value_at m (forest fg)" using st(6) by simp
    moreover have "value_at m (forest fg2) = value_at m (forest fg1)"
      using ih a st(3) by simp
    ultimately show "value_at m (forest fg2) = value_at m (forest fg)" by simp
  qed
  have disj: "set (c # ptrs) \<inter> set (node_ids (forest fg)) = {}"
    using ih st(1,3) by auto
  have ids: "set (node_ids (forest fg2)) = set (node_ids (forest fg)) \<union> set (c # ptrs)"
    using ih st(3) by auto
  show ?case unfolding m using ih st(4) vc old disj ids by simp
qed

text \<open>
  A root alone in its forest, in region 7, makes three children: they are its children in
  the order made, each in region 7.
\<close>

theorem make_child_appends_last_child_witness:
  "distinct (node_ids (forest \<lparr>forest = Tree 0 \<lparr>region_field = 7, graph_info_field = ''root''\<rparr> Empty Empty\<rparr>))
   \<and> self_field \<lparr>region_field = 7, graph_info_field = ''root'', self_field = At 0 Trailing\<rparr> = At 0 Trailing
   \<and> 0 \<in> set (node_ids (forest \<lparr>forest = Tree 0 \<lparr>region_field = 7, graph_info_field = ''root''\<rparr> Empty Empty\<rparr>))
   \<and> make_children \<lparr>region_field = 7, graph_info_field = ''root'', self_field = At 0 Trailing\<rparr>
        [''a'', ''b'', ''c'']
        \<lparr>forest = Tree 0 \<lparr>region_field = 7, graph_info_field = ''root''\<rparr> Empty Empty\<rparr>
      = ([1, 2, 3],
         \<lparr>forest = Tree 0 \<lparr>region_field = 7, graph_info_field = ''root''\<rparr>
            (Tree 1 \<lparr>region_field = 7, graph_info_field = ''a''\<rparr> Empty
              (Tree 2 \<lparr>region_field = 7, graph_info_field = ''b''\<rparr> Empty
                (Tree 3 \<lparr>region_field = 7, graph_info_field = ''c''\<rparr> Empty Empty)))
            Empty\<rparr>)
   \<and> child_ids 0 (Tree 0 \<lparr>region_field = 7, graph_info_field = ''root''\<rparr>
            (Tree 1 \<lparr>region_field = 7, graph_info_field = ''a''\<rparr> Empty
              (Tree 2 \<lparr>region_field = 7, graph_info_field = ''b''\<rparr> Empty
                (Tree 3 \<lparr>region_field = 7, graph_info_field = ''c''\<rparr> Empty Empty)))
            Empty) = [1, 2, 3]"
  using make_child_appends_last_child
    [of "\<lparr>forest = Tree 0 \<lparr>region_field = 7, graph_info_field = ''root''\<rparr> Empty Empty\<rparr>"
        "\<lparr>region_field = 7, graph_info_field = ''root'', self_field = At 0 Trailing\<rparr>" 0
        "[''a'', ''b'', ''c'']"]
  by (simp add: make_child_def add_child_def forest_insert_def fresh_node_def region_def
      child_ids_def)

end
